theory Spec2Isabelle
  imports
    Main
    "HOL-Library.Char_ord"
    "HOL-Library.List_Lexorder"
    "HOL-Library.Product_Lexorder"
    "HOL-Library.Sublist"
begin

section \<open>Lineage hierarchy generation (scripts/generate_lineage_files.py)\<close>

text \<open>
  The script reads a column of clade labels, builds a dictionary of hierarchy nodes
  (\<open>load_lineage_files\<close>) and writes the nodes sorted by the key \<open>parse_label\<close>
  (\<open>generate_hierarchy_file\<close>). Download, file output and table reading are outside the
  model: \<open>load_lineage_files\<close> starts from the sequence \<open>unique_clades\<close>, and the writer
  returns the lines it writes.

  Strings are \<open>char list\<close>. The delimiters \<open>_\<close> and \<open>.\<close> are ASCII, and Python compares
  strings code point by code point, lists of characters lexicographically, and tuples
  componentwise from the left; on \<open>string\<close> these are the orders of
  \<open>Char_ord\<close>, \<open>List_Lexorder\<close> and \<open>Product_Lexorder\<close>.
\<close>

subsection \<open>Python primitives used by the script\<close>

datatype error = IndexError | KeyError

text \<open>\<open>s.split(sep)\<close> for a one-character separator: every occurrence of the separator
  ends a field, so the result is never empty and has one field more than there are
  separators.\<close>

fun split :: "char \<Rightarrow> string \<Rightarrow> string list" where
  "split sep [] = [[]]"
| "split sep (c # cs) =
     (if c = sep then [] # split sep cs
      else (c # hd (split sep cs)) # tl (split sep cs))"

text \<open>\<open>xs[i]\<close> for a non-negative index: IndexError out of range.\<close>

definition item :: "'a list \<Rightarrow> nat \<Rightarrow> error + 'a" where
  "item xs i = (if i < length xs then Inr (xs ! i) else Inl IndexError)"

subsection \<open>Data model\<close>

text \<open>A node is the dictionary \<open>{"aliases": [...], "parents": [...]}\<close>.\<close>

record node =
  aliases :: "string list"
  parents :: "string list"

text \<open>The dictionary \<open>silo_lineages\<close>: a Python dict keeps its keys in insertion order, and
  the writer sorts \<open>lineages.keys()\<close> in that order, so the dictionary is an association
  list in insertion order.\<close>

type_synonym hierarchy = "(string \<times> node) list"

text \<open>\<open>d.keys()\<close>, \<open>k in d\<close>, \<open>d[k]\<close> and \<open>d[k] = v\<close>. An assignment to a present key
  replaces the value in place; to an absent key it appends the entry.\<close>

definition keys :: "hierarchy \<Rightarrow> string list" where
  "keys d = map fst d"

definition contains :: "hierarchy \<Rightarrow> string \<Rightarrow> bool" where
  "contains d k = (k \<in> set (keys d))"

definition getitem :: "hierarchy \<Rightarrow> string \<Rightarrow> error + node" where
  "getitem d k = (case map_of d k of None \<Rightarrow> Inl KeyError | Some v \<Rightarrow> Inr v)"

definition setitem :: "hierarchy \<Rightarrow> string \<Rightarrow> node \<Rightarrow> hierarchy" where
  "setitem d k v =
     (if contains d k then map (\<lambda>(k', v'). if k' = k then (k', v) else (k', v')) d
      else d @ [(k, v)])"

subsection \<open>parse_label\<close>

definition parse_label :: "string \<Rightarrow> error + (string \<times> string \<times> string)" where
  "parse_label clade =
     (case item (split CHR ''_'' clade) 0 of
        Inl e \<Rightarrow> Inl e
      | Inr genotype \<Rightarrow>
          if length (split CHR ''_'' clade) > 1 then
            (case item (split CHR ''.'' clade) 0 of
               Inl e \<Rightarrow> Inl e
             | Inr major_lineage \<Rightarrow>
                 if length (split CHR ''.'' clade) > 1
                 then Inr (genotype, major_lineage, clade)
                 else Inr (genotype, major_lineage, []))
          else Inr (genotype, [], []))"

subsection \<open>load_lineage_files\<close>

text \<open>The guarded assignment \<open>if name not in silo_lineages: silo_lineages[name] = {...}\<close>,
  which the loop body performs for the genotype, the major lineage and the minor
  lineage.\<close>

definition insert_if_absent :: "string \<Rightarrow> node \<Rightarrow> hierarchy \<Rightarrow> hierarchy" where
  "insert_if_absent name v silo_lineages =
     (if \<not> contains silo_lineages name then setitem silo_lineages name v
      else silo_lineages)"

text \<open>One iteration of \<open>for clade in unique_clades\<close>.\<close>

definition loop_body :: "string \<Rightarrow> hierarchy \<Rightarrow> error + hierarchy" where
  "loop_body clade silo_lineages =
     (case item (split CHR ''_'' clade) 0 of
        Inl e \<Rightarrow> Inl e
      | Inr genotype \<Rightarrow>
          let silo1 = insert_if_absent genotype \<lparr>aliases = [], parents = []\<rparr> silo_lineages
          in if length (split CHR ''_'' clade) > 1 then
               (case item (split CHR ''.'' clade) 0 of
                  Inl e \<Rightarrow> Inl e
                | Inr major_lineage \<Rightarrow>
                    let silo2 = insert_if_absent major_lineage
                                  \<lparr>aliases = [], parents = [genotype]\<rparr> silo1
                    in if length (split CHR ''.'' clade) > 1 then
                         let minor_lineage = clade
                         in Inr (insert_if_absent minor_lineage
                                   \<lparr>aliases = [], parents = [major_lineage]\<rparr> silo2)
                       else Inr silo2)
             else Inr silo1)"

fun for_clades :: "string list \<Rightarrow> hierarchy \<Rightarrow> error + hierarchy" where
  "for_clades [] silo_lineages = Inr silo_lineages"
| "for_clades (clade # rest) silo_lineages =
     (case loop_body clade silo_lineages of
        Inl e \<Rightarrow> Inl e
      | Inr silo' \<Rightarrow> for_clades rest silo')"

text \<open>The dictionary starts with the two sentinel entries.\<close>

definition load_lineage_files :: "string list \<Rightarrow> error + hierarchy" where
  "load_lineage_files unique_clades =
     for_clades unique_clades
       (setitem (setitem [] ''unassigned'' \<lparr>aliases = [], parents = []\<rparr>)
          ''None'' \<lparr>aliases = [], parents = []\<rparr>)"

subsection \<open>generate_hierarchy_file\<close>

text \<open>\<open>sorted(xs, key=f)\<close>: the key of every element is computed first (an exception of the
  key function propagates), then the elements are sorted stably by key. \<open>sort_key\<close> is a
  stable sort, and a stable sort has one result.\<close>

fun map_result :: "('a \<Rightarrow> error + 'b) \<Rightarrow> 'a list \<Rightarrow> error + 'b list" where
  "map_result f [] = Inr []"
| "map_result f (x # xs) =
     (case f x of
        Inl e \<Rightarrow> Inl e
      | Inr y \<Rightarrow> (case map_result f xs of Inl e \<Rightarrow> Inl e | Inr ys \<Rightarrow> Inr (y # ys)))"

definition sorted_by :: "('a \<Rightarrow> error + 'k::linorder) \<Rightarrow> 'a list \<Rightarrow> error + 'a list" where
  "sorted_by key xs =
     (case map_result key xs of
        Inl e \<Rightarrow> Inl e
      | Inr ks \<Rightarrow> Inr (map snd (sort_key fst (zip ks xs))))"

text \<open>The lines written for one node. The text of a line is fixed by its kind and the
  name or list it carries.\<close>

datatype line =
    Header string
  | Aliases "string list"
  | ParentsHeader
  | ParentItem string
  | ParentsEmpty

definition write_node :: "hierarchy \<Rightarrow> string \<Rightarrow> error + line list" where
  "write_node lineages name =
     (case getitem lineages name of
        Inl e \<Rightarrow> Inl e
      | Inr nd \<Rightarrow>
          Inr ([Header name, Aliases (aliases nd)] @
               (if parents nd \<noteq> [] then ParentsHeader # map ParentItem (parents nd)
                else [ParentsEmpty])))"

definition generate_hierarchy_file :: "hierarchy \<Rightarrow> error + line list" where
  "generate_hierarchy_file lineages =
     (case sorted_by parse_label (keys lineages) of
        Inl e \<Rightarrow> Inl e
      | Inr names \<Rightarrow>
          (case map_result (write_node lineages) names of
             Inl e \<Rightarrow> Inl e
           | Inr blocks \<Rightarrow> Inr (concat blocks)))"

subsection \<open>Notions used to state the properties\<close>

abbreviation before_first :: "char \<Rightarrow> string \<Rightarrow> string" where
  "before_first c s \<equiv> takeWhile (\<lambda>x. x \<noteq> c) s"

text \<open>The tuple that \<open>parse_label\<close> returns, as a total function (see \<open>parse_label_key\<close>).\<close>

definition label_key :: "string \<Rightarrow> string \<times> string \<times> string" where
  "label_key s =
     (before_first CHR ''_'' s,
      if CHR ''_'' \<in> set s then before_first CHR ''.'' s else [],
      if CHR ''_'' \<in> set s \<and> CHR ''.'' \<in> set s then s else [])"

text \<open>A label follows the three-level scheme \<open>genotype_major.minor\<close> when no dot comes
  before its first underscore. A label without underscore is a bare genotype.\<close>

definition scheme_label :: "string \<Rightarrow> bool" where
  "scheme_label s =
     (CHR ''_'' \<in> set s \<longrightarrow> CHR ''.'' \<notin> set (before_first CHR ''_'' s))"

text \<open>The parents list that the scheme gives a name: none for a name without underscore,
  the genotype for a major lineage, the major lineage for a minor lineage.\<close>

definition scheme_parents :: "string \<Rightarrow> string list" where
  "scheme_parents x =
     (if CHR ''_'' \<notin> set x then []
      else if CHR ''.'' \<notin> set x then [before_first CHR ''_'' x]
      else [before_first CHR ''.'' x])"

text \<open>The names that one label contributes to the dictionary.\<close>

definition label_names :: "string \<Rightarrow> string set" where
  "label_names c =
     (if CHR ''_'' \<in> set c then
        (if CHR ''.'' \<in> set c
         then {before_first CHR ''_'' c, before_first CHR ''.'' c, c}
         else {before_first CHR ''_'' c, before_first CHR ''.'' c})
      else {before_first CHR ''_'' c})"


text \<open>\<open>precedes xs a b\<close>: \<open>a\<close> occurs in \<open>xs\<close> at a position before an occurrence of \<open>b\<close>.\<close>

fun precedes :: "'a list \<Rightarrow> 'a \<Rightarrow> 'a \<Rightarrow> bool" where
  "precedes [] a b = False"
| "precedes (x # xs) a b = ((x = a \<and> b \<in> set xs) \<or> precedes xs a b)"

section \<open>Properties\<close>

subsection \<open>split and parse_label\<close>

lemma split_not_Nil: "split sep s \<noteq> []"
  by (induction s) auto

lemma hd_split: "hd (split sep s) = before_first sep s"
  by (induction s) auto

lemma length_split: "length (split sep s) = Suc (count_list s sep)"
proof (induction s)
  case Nil
  show ?case by simp
next
  case (Cons c cs)
  have "length (tl (split sep cs)) = count_list cs sep"
    using Cons by simp
  then show ?case using Cons by simp
qed

lemma split_many: "Suc 0 < length (split sep s) \<longleftrightarrow> sep \<in> set s"
proof -
  have "0 < count_list s sep \<longleftrightarrow> sep \<in> set s"
    using count_list_0_iff [of s sep] by auto
  then show ?thesis by (simp add: length_split)
qed

lemma item_split_0: "item (split sep s) 0 = Inr (before_first sep s)"
  using split_not_Nil [of sep s] hd_split [of sep s]
  by (cases "split sep s") (auto simp: item_def)

lemma parse_label_key: "parse_label s = Inr (label_key s)"
  by (simp add: parse_label_def label_key_def item_split_0 split_many)

text \<open>
  C4 (as amended). For every string \<open>s\<close>, \<open>parse_label s\<close> returns \<open>(g, m, n)\<close> where
  \<open>g\<close> is the part of \<open>s\<close> before the first underscore (all of \<open>s\<close> without one), \<open>m\<close> is
  empty when \<open>s\<close> has no underscore and otherwise the part of \<open>s\<close> before the first dot
  (all of \<open>s\<close> without one), and \<open>n\<close> is empty when \<open>s\<close> has no underscore or no dot and
  otherwise is \<open>s\<close> itself. So \<open>n\<close> non-empty implies \<open>n = s\<close>, \<open>m\<close> non-empty implies that
  \<open>m\<close> is a prefix of \<open>s\<close>, and \<open>g\<close> is a prefix of \<open>s\<close>. The test for \<open>n\<close> is the
  underscore in \<open>s\<close>, not whether \<open>m\<close> is empty.
\<close>

theorem parse_label_components:
  "\<exists>g m n. parse_label s = Inr (g, m, n)
     \<and> g = takeWhile (\<lambda>c. c \<noteq> CHR ''_'') s
     \<and> m = (if CHR ''_'' \<notin> set s then [] else takeWhile (\<lambda>c. c \<noteq> CHR ''.'') s)
     \<and> n = (if CHR ''_'' \<notin> set s \<or> CHR ''.'' \<notin> set s then [] else s)
     \<and> (n \<noteq> [] \<longrightarrow> n = s)
     \<and> (m \<noteq> [] \<longrightarrow> prefix m s)
     \<and> prefix g s"
  by (simp add: parse_label_key label_key_def takeWhile_is_prefix)

theorem parse_label_components_witness:
  "parse_label ''X_1.2.3'' = Inr (''X'', ''X_1'', ''X_1.2.3'')
     \<and> ''X_1.2.3'' \<noteq> [] \<and> ''X_1'' \<noteq> [] \<and> prefix ''X_1'' ''X_1.2.3''"
  using parse_label_components [of "''X_1.2.3''"] by simp

text \<open>The claim as written makes \<open>n\<close> empty whenever \<open>m\<close> is empty. For the label \<open>._\<close>
  the major lineage is empty and the minor lineage is the whole label.\<close>

theorem parse_label_minor_counterexample:
  "''._'' \<noteq> [] \<and> parse_label ''._'' = Inr (''.'', [], ''._'')"
  by (simp add: parse_label_key label_key_def)

subsection \<open>The dictionary and one iteration of the loop\<close>

lemma contains_map_of: "contains d k \<longleftrightarrow> map_of d k \<noteq> None"
  by (simp add: contains_def keys_def map_of_eq_None_iff)

lemma insert_if_absent_eq:
  "insert_if_absent k v d = (if k \<in> set (keys d) then d else d @ [(k, v)])"
  by (simp add: insert_if_absent_def setitem_def contains_def)

lemma keys_insert_if_absent:
  "set (keys (insert_if_absent k v d)) = insert k (set (keys d))"
  by (auto simp: insert_if_absent_eq keys_def)

lemma distinct_insert_if_absent:
  "distinct (keys d) \<Longrightarrow> distinct (keys (insert_if_absent k v d))"
  by (auto simp: insert_if_absent_eq keys_def)

lemma map_of_insert_if_absent:
  "map_of (insert_if_absent k v d) x =
     (case map_of d x of Some y \<Rightarrow> Some y | None \<Rightarrow> if x = k then Some v else None)"
proof (cases "k \<in> set (keys d)")
  case True
  then have "map_of d k \<noteq> None"
    by (simp add: keys_def map_of_eq_None_iff)
  then obtain y where "map_of d k = Some y"
    by blast
  then show ?thesis using True
    by (auto simp: insert_if_absent_eq split: option.splits)
next
  case False
  then have "map_of d k = None"
    by (simp add: keys_def map_of_eq_None_iff)
  then show ?thesis using False
    by (auto simp: insert_if_absent_eq map_add_def split: option.splits)
qed

lemma loop_body_eq:
  "loop_body clade d =
     Inr (let g = before_first CHR ''_'' clade;
              m = before_first CHR ''.'' clade;
              d1 = insert_if_absent g \<lparr>aliases = [], parents = []\<rparr> d;
              d2 = insert_if_absent m \<lparr>aliases = [], parents = [g]\<rparr> d1;
              d3 = insert_if_absent clade \<lparr>aliases = [], parents = [m]\<rparr> d2
          in if CHR ''_'' \<in> set clade then (if CHR ''.'' \<in> set clade then d3 else d2) else d1)"
  by (simp add: loop_body_def item_split_0 split_many Let_def)

lemma loop_body_total: "\<exists>d'. loop_body clade d = Inr d'"
  by (simp add: loop_body_eq)

lemma for_clades_total: "\<exists>d'. for_clades cs d = Inr d'"
proof (induction cs arbitrary: d)
  case Nil
  show ?case by simp
next
  case (Cons c cs)
  obtain d1 where "loop_body c d = Inr d1"
    using loop_body_total by blast
  then show ?case using Cons [of d1] by simp
qed

lemma for_clades_invariant:
  assumes "for_clades cs d = Inr d'"
    and "P d"
    and "\<And>c a b. c \<in> set cs \<Longrightarrow> P a \<Longrightarrow> loop_body c a = Inr b \<Longrightarrow> P b"
  shows "P d'"
  using assms
proof (induction cs arbitrary: d)
  case Nil
  then show ?case by simp
next
  case (Cons c cs)
  obtain d1 where d1: "loop_body c d = Inr d1"
    using loop_body_total by blast
  have "for_clades cs d1 = Inr d'" using Cons.prems(1) d1 by simp
  moreover have "P d1" using Cons.prems(3) [of c d d1] Cons.prems(2) d1 by simp
  moreover have "\<And>x a b. x \<in> set cs \<Longrightarrow> P a \<Longrightarrow> loop_body x a = Inr b \<Longrightarrow> P b"
    by (rule Cons.prems(3)) simp_all
  ultimately show ?case by (rule Cons.IH [of d1])
qed

lemma initial_dict:
  "setitem (setitem [] ''unassigned'' \<lparr>aliases = [], parents = []\<rparr>)
          ''None'' \<lparr>aliases = [], parents = []\<rparr>
   = [(''unassigned'', \<lparr>aliases = [], parents = []\<rparr>), (''None'', \<lparr>aliases = [], parents = []\<rparr>)]"
  by (simp add: setitem_def contains_def keys_def)

lemma load_eq: "load_lineage_files cs = for_clades cs
   [(''unassigned'', \<lparr>aliases = [], parents = []\<rparr>), (''None'', \<lparr>aliases = [], parents = []\<rparr>)]"
  by (simp add: load_lineage_files_def initial_dict)

lemma loop_body_entry:
  assumes "loop_body c d = Inr d'" and "map_of d' x = Some nd"
  shows "map_of d x = Some nd
     \<or> (x = before_first CHR ''_'' c \<and> nd = \<lparr>aliases = [], parents = []\<rparr>)
     \<or> (CHR ''_'' \<in> set c \<and> x = before_first CHR ''.'' c
          \<and> nd = \<lparr>aliases = [], parents = [before_first CHR ''_'' c]\<rparr>)
     \<or> (CHR ''_'' \<in> set c \<and> CHR ''.'' \<in> set c \<and> x = c
          \<and> nd = \<lparr>aliases = [], parents = [before_first CHR ''.'' c]\<rparr>)"
  using assms
  by (auto simp: loop_body_eq Let_def map_of_insert_if_absent
           split: if_splits option.splits)

lemma loop_body_preserves:
  assumes "loop_body c d = Inr d'" and "map_of d k = Some v"
  shows "map_of d' k = Some v"
  using assms
  by (auto simp: loop_body_eq Let_def map_of_insert_if_absent split: if_splits)

lemma loop_body_keys_mono:
  assumes "loop_body c d = Inr d'"
  shows "set (keys d) \<subseteq> set (keys d')"
  using assms
  by (auto simp: loop_body_eq Let_def keys_insert_if_absent split: if_splits)

lemma loop_body_genotype:
  assumes "loop_body c d = Inr d'"
  shows "before_first CHR ''_'' c \<in> set (keys d')"
  using assms
  by (auto simp: loop_body_eq Let_def keys_insert_if_absent split: if_splits)

lemma loop_body_distinct:
  assumes "loop_body c d = Inr d'" and "distinct (keys d)"
  shows "distinct (keys d')"
  using assms
  by (auto simp: loop_body_eq Let_def distinct_insert_if_absent split: if_splits)

lemma map_of_keys: "map_of d x = Some nd \<Longrightarrow> x \<in> set (keys d)"
  by (auto simp: keys_def dest: map_of_SomeD intro: rev_image_eqI)

lemma loop_body_closed:
  assumes "loop_body c d = Inr d'"
    and "\<forall>x nd p. map_of d x = Some nd \<longrightarrow> p \<in> set (parents nd) \<longrightarrow> p \<in> set (keys d)"
  shows "\<forall>x nd p. map_of d' x = Some nd \<longrightarrow> p \<in> set (parents nd) \<longrightarrow> p \<in> set (keys d')"
proof (intro allI impI)
  fix x nd p
  assume x: "map_of d' x = Some nd" and p: "p \<in> set (parents nd)"
  have mono: "set (keys d) \<subseteq> set (keys d')"
    using assms(1) by (rule loop_body_keys_mono)
  have g: "before_first CHR ''_'' c \<in> set (keys d')"
    using assms(1) by (rule loop_body_genotype)
  have m: "before_first CHR ''.'' c \<in> set (keys d')" if "CHR ''_'' \<in> set c"
    using assms(1) that
    by (auto simp: loop_body_eq Let_def keys_insert_if_absent split: if_splits)
  from loop_body_entry [OF assms(1) x] show "p \<in> set (keys d')"
    using p assms(2) mono g m by auto
qed

subsection \<open>The whole loop\<close>

lemma load_total: "\<exists>h. load_lineage_files cs = Inr h"
  by (simp add: load_eq for_clades_total)

lemma for_clades_preserves:
  assumes "for_clades cs d = Inr d'" and "map_of d k = Some v"
  shows "map_of d' k = Some v"
  using assms(1)
proof (rule for_clades_invariant [where P = "\<lambda>a. map_of a k = Some v"])
  show "map_of d k = Some v" by (rule assms(2))
next
  fix c a b
  assume "map_of a k = Some v" and "loop_body c a = Inr b"
  then show "map_of b k = Some v" by (simp add: loop_body_preserves)
qed

lemma for_clades_keys_mono:
  assumes "for_clades cs d = Inr d'"
  shows "set (keys d) \<subseteq> set (keys d')"
  using assms
proof (rule for_clades_invariant [where P = "\<lambda>a. set (keys d) \<subseteq> set (keys a)"])
  show "set (keys d) \<subseteq> set (keys d)" by simp
next
  fix c a b
  assume "set (keys d) \<subseteq> set (keys a)" and "loop_body c a = Inr b"
  then show "set (keys d) \<subseteq> set (keys b)"
    using loop_body_keys_mono [of c a b] by blast
qed

lemma for_clades_distinct:
  assumes "for_clades cs d = Inr d'" and "distinct (keys d)"
  shows "distinct (keys d')"
  using assms(1)
proof (rule for_clades_invariant [where P = "\<lambda>a. distinct (keys a)"])
  show "distinct (keys d)" by (rule assms(2))
next
  fix c a b
  assume "distinct (keys a)" and "loop_body c a = Inr b"
  then show "distinct (keys b)" by (simp add: loop_body_distinct)
qed

lemma for_clades_genotype:
  assumes "for_clades cs d = Inr d'" and "s \<in> set cs"
  shows "before_first CHR ''_'' s \<in> set (keys d')"
  using assms
proof (induction cs arbitrary: d)
  case Nil
  then show ?case by simp
next
  case (Cons c cs)
  obtain d1 where d1: "loop_body c d = Inr d1"
    using loop_body_total by blast
  then have rest: "for_clades cs d1 = Inr d'"
    using Cons.prems(1) by simp
  show ?case
  proof (cases "s = c")
    case True
    then have "before_first CHR ''_'' s \<in> set (keys d1)"
      using loop_body_genotype [OF d1] by simp
    then show ?thesis using for_clades_keys_mono [OF rest] by blast
  next
    case False
    then have "s \<in> set cs" using Cons.prems(2) by simp
    then show ?thesis using Cons.IH [OF rest] by simp
  qed
qed

lemma load_parents_closed:
  assumes "load_lineage_files cs = Inr h" and "map_of h x = Some nd" and "p \<in> set (parents nd)"
  shows "p \<in> set (keys h)"
proof -
  have run: "for_clades cs
      [(''unassigned'', \<lparr>aliases = [], parents = []\<rparr>), (''None'', \<lparr>aliases = [], parents = []\<rparr>)]
      = Inr h"
    using assms(1) by (simp add: load_eq)
  have "\<forall>x nd p. map_of h x = Some nd \<longrightarrow> p \<in> set (parents nd) \<longrightarrow> p \<in> set (keys h)"
    using run
  proof (rule for_clades_invariant)
    show "\<forall>x nd p. map_of [(''unassigned'', \<lparr>aliases = [], parents = []\<rparr>),
                (''None'', \<lparr>aliases = [], parents = []\<rparr>)] x = Some nd
            \<longrightarrow> p \<in> set (parents nd)
            \<longrightarrow> p \<in> set (keys [(''unassigned'', \<lparr>aliases = [], parents = []\<rparr>),
                                 (''None'', \<lparr>aliases = [], parents = []\<rparr>)])"
      by (auto split: if_splits)
  next
    fix c a b
    assume "\<forall>x nd p. map_of a x = Some nd \<longrightarrow> p \<in> set (parents nd) \<longrightarrow> p \<in> set (keys a)"
      and "loop_body c a = Inr b"
    then show "\<forall>x nd p. map_of b x = Some nd \<longrightarrow> p \<in> set (parents nd) \<longrightarrow> p \<in> set (keys b)"
      using loop_body_closed [of c a b] by blast
  qed
  then show ?thesis using assms(2,3) by blast
qed

text \<open>
  C5. For every input sequence the builder returns a hierarchy in which every name listed
  among the parents of a node is itself a key.
\<close>

theorem parent_closure:
  "\<exists>h. load_lineage_files cs = Inr h
     \<and> (\<forall>x nd p. map_of h x = Some nd \<longrightarrow> p \<in> set (parents nd) \<longrightarrow> p \<in> set (keys h))"
proof -
  obtain h where h: "load_lineage_files cs = Inr h"
    using load_total by blast
  then show ?thesis using load_parents_closed [of cs h] by blast
qed

theorem parent_closure_witness:
  "\<exists>h. load_lineage_files [''A_1.2''] = Inr h
     \<and> map_of h ''A_1.2'' = Some \<lparr>aliases = [], parents = [''A_1'']\<rparr>
     \<and> ''A_1'' \<in> set (parents \<lparr>aliases = [], parents = [''A_1'']\<rparr>)
     \<and> ''A_1'' \<in> set (keys h)"
  using parent_closure [of "[''A_1.2'']"]
  by (simp add: load_eq loop_body_eq insert_if_absent_eq keys_def Let_def)

text \<open>
  C6. For every input sequence, the empty one and those whose labels yield the sentinel
  names included, the builder returns a hierarchy that holds \<open>unassigned\<close> and \<open>None\<close>,
  each with empty aliases and empty parents.
\<close>

theorem sentinels_present:
  "\<exists>h. load_lineage_files cs = Inr h
     \<and> map_of h ''unassigned'' = Some \<lparr>aliases = [], parents = []\<rparr>
     \<and> map_of h ''None'' = Some \<lparr>aliases = [], parents = []\<rparr>"
proof -
  obtain h where h: "load_lineage_files cs = Inr h"
    using load_total by blast
  then have run: "for_clades cs
      [(''unassigned'', \<lparr>aliases = [], parents = []\<rparr>), (''None'', \<lparr>aliases = [], parents = []\<rparr>)]
      = Inr h"
    by (simp add: load_eq)
  have "map_of h ''unassigned'' = Some \<lparr>aliases = [], parents = []\<rparr>"
    by (rule for_clades_preserves [OF run]) simp
  moreover have "map_of h ''None'' = Some \<lparr>aliases = [], parents = []\<rparr>"
    by (rule for_clades_preserves [OF run]) simp
  ultimately show ?thesis using h by blast
qed

text \<open>
  C7. For the input \<open>["A_1", "A_1.2"]\<close> the builder returns exactly five nodes:
  \<open>unassigned\<close>, \<open>None\<close> and the genotype \<open>A\<close> without parents, the major lineage
  \<open>A_1\<close> with parent \<open>A\<close>, the minor lineage \<open>A_1.2\<close> with parent \<open>A_1\<close>, all with
  empty aliases.
\<close>

theorem example_five_nodes:
  "load_lineage_files [''A_1'', ''A_1.2''] =
     Inr [(''unassigned'', \<lparr>aliases = [], parents = []\<rparr>),
          (''None'', \<lparr>aliases = [], parents = []\<rparr>),
          (''A'', \<lparr>aliases = [], parents = []\<rparr>),
          (''A_1'', \<lparr>aliases = [], parents = [''A'']\<rparr>),
          (''A_1.2'', \<lparr>aliases = [], parents = [''A_1'']\<rparr>)]"
  by (simp add: load_eq loop_body_eq insert_if_absent_eq keys_def Let_def)

text \<open>
  C9. For every input sequence, malformed labels and the empty string included, the
  builder returns a hierarchy (no IndexError), and for every input string the genotype
  that \<open>parse_label\<close> gives it is a key of that hierarchy.
\<close>

theorem builder_total:
  "\<exists>h. load_lineage_files cs = Inr h
     \<and> (\<forall>s \<in> set cs. \<exists>g m n. parse_label s = Inr (g, m, n) \<and> g \<in> set (keys h))"
proof -
  obtain h where h: "load_lineage_files cs = Inr h"
    using load_total by blast
  then have run: "for_clades cs
      [(''unassigned'', \<lparr>aliases = [], parents = []\<rparr>), (''None'', \<lparr>aliases = [], parents = []\<rparr>)]
      = Inr h"
    by (simp add: load_eq)
  have "\<exists>g m n. parse_label s = Inr (g, m, n) \<and> g \<in> set (keys h)" if "s \<in> set cs" for s
    using for_clades_genotype [OF run that]
    by (simp add: parse_label_key label_key_def)
  with h show ?thesis by blast
qed

theorem builder_total_witness:
  "'''' \<in> set [''X.1'', ''''] \<and>
   (\<exists>h. load_lineage_files [''X.1'', ''''] = Inr h \<and> parse_label '''' = Inr ([], [], [])
      \<and> [] \<in> set (keys h))"
  using builder_total [of "[''X.1'', '''']"]
  by (simp add: load_eq loop_body_eq insert_if_absent_eq keys_def Let_def parse_label_key label_key_def)

subsection \<open>Sorting by the key\<close>

lemma map_result_total:
  assumes "\<And>x. f x = Inr (g x)"
  shows "map_result f xs = Inr (map g xs)"
  by (induction xs) (simp_all add: assms)

lemma map_snd_insort:
  assumes "\<forall>p \<in> set ps. fst p = f (snd p)"
  shows "map snd (insort_key fst (f x, x) ps) = insort_key f x (map snd ps)"
  using assms by (induction ps) auto

lemma sort_zip_keys:
  "map snd (sort_key fst (zip (map f xs) xs)) = sort_key f xs"
proof (induction xs)
  case Nil
  show ?case by simp
next
  case (Cons x xs)
  have "\<forall>p \<in> set (sort_key fst (zip (map f xs) xs)). fst p = f (snd p)"
    by (auto simp: set_zip)
  then show ?case using Cons by (simp add: map_snd_insort)
qed

lemma sorted_by_parse_label:
  "sorted_by parse_label xs = Inr (sort_key label_key xs)"
  by (simp add: sorted_by_def map_result_total [of parse_label label_key]
        parse_label_key sort_zip_keys)

lemma label_key_inj: "label_key a = label_key b \<Longrightarrow> a = b"
proof -
  assume eq: "label_key a = label_key b"
  have nodot: "before_first CHR ''.'' s = s" if "CHR ''.'' \<notin> set s" for s :: string
    using that by auto
  have nous: "before_first CHR ''_'' s = s" if "CHR ''_'' \<notin> set s" for s :: string
    using that by auto
  have ne: "s \<noteq> []" if "CHR ''_'' \<in> set s" for s :: string
    using that by auto
  show "a = b"
  proof (cases "CHR ''_'' \<in> set a")
    case ua: True
    show ?thesis
    proof (cases "CHR ''_'' \<in> set b")
      case ub: True
      show ?thesis
      proof (cases "CHR ''.'' \<in> set a")
        case True
        then show ?thesis using eq ua ub ne [of a]
          by (auto simp: label_key_def split: if_splits)
      next
        case False
        then show ?thesis using eq ua ub ne [of b] nodot [of a] nodot [of b]
          by (auto simp: label_key_def split: if_splits)
      qed
    next
      case False
      then show ?thesis using eq ua ne [of a] nodot [of a]
        by (auto simp: label_key_def split: if_splits)
    qed
  next
    case na: False
    show ?thesis
    proof (cases "CHR ''_'' \<in> set b")
      case True
      then show ?thesis using eq na ne [of b] nodot [of b]
        by (auto simp: label_key_def split: if_splits)
    next
      case False
      then show ?thesis using eq na nous [of a] nous [of b]
        by (simp add: label_key_def)
    qed
  qed
qed

lemma sort_key_same_set:
  fixes f :: "'a \<Rightarrow> 'k::linorder"
  assumes "inj f" and "distinct xs" and "distinct ys" and "set xs = set ys"
  shows "sort_key f xs = sort_key f ys"
proof -
  let ?a = "map f (sort_key f xs)" and ?b = "map f (sort_key f ys)"
  have inj_on: "\<And>A. inj_on f A" using assms(1) by (rule inj_on_subset) simp
  have "sorted ?a" by simp
  moreover have "distinct ?a" using assms(2) by (simp add: distinct_map inj_on)
  moreover have "sorted ?b" by simp
  moreover have "distinct ?b" using assms(3) by (simp add: distinct_map inj_on)
  moreover have "set ?a = set ?b" using assms(4) by simp
  ultimately have "?a = ?b" by (rule sorted_distinct_set_unique)
  then show ?thesis using assms(1) by simp
qed

lemma precedes_sorted:
  fixes f :: "'a \<Rightarrow> 'k::linorder"
  assumes "sorted (map f xs)" and "a \<in> set xs" and "b \<in> set xs" and "f a < f b"
  shows "precedes xs a b"
  using assms
proof (induction xs)
  case Nil
  then show ?case by simp
next
  case (Cons x xs)
  show ?case
  proof (cases "x = a")
    case True
    then have "b \<noteq> x" using Cons.prems(4) by auto
    then have "b \<in> set xs" using Cons.prems(3) by simp
    then show ?thesis using True by simp
  next
    case False
    then have a: "a \<in> set xs" using Cons.prems(2) by simp
    have "b \<noteq> x"
    proof
      assume "b = x"
      then have "f b \<le> f a" using Cons.prems(1) a by auto
      then show False using Cons.prems(4) by simp
    qed
    then have "b \<in> set xs" using Cons.prems(3) by simp
    then have "precedes xs a b" using Cons.IH Cons.prems(1,4) a by simp
    then show ?thesis by simp
  qed
qed

lemma precedes_sort_key:
  fixes f :: "'a \<Rightarrow> 'k::linorder"
  assumes "a \<in> set xs" and "b \<in> set xs" and "f a < f b"
  shows "precedes (sort_key f xs) a b"
  by (rule precedes_sorted [of f]) (simp_all add: assms)

subsection \<open>Labels that follow the scheme\<close>

lemma before_first_free: "c \<notin> set (before_first c s)"
  by (auto dest: set_takeWhileD)

lemma before_first_all: "c \<notin> set s \<Longrightarrow> before_first c s = s"
  by auto

lemma before_first_split:
  "c \<in> set s \<Longrightarrow> \<exists>r. s = before_first c s @ c # r"
  by (induction s) auto

lemma before_first_nested:
  assumes "a \<in> set (before_first b s)"
  shows "before_first a (before_first b s) = before_first a s"
proof -
  have "before_first a (before_first b s @ dropWhile (\<lambda>x. x \<noteq> b) s)
          = before_first a (before_first b s)"
    using assms by (intro takeWhile_append1 [of a]) simp_all
  then show ?thesis by simp
qed

lemma scheme_major_has_underscore:
  assumes "CHR ''_'' \<in> set c" and "scheme_label c"
  shows "CHR ''_'' \<in> set (before_first CHR ''.'' c)"
proof -
  let ?g = "before_first CHR ''_'' c"
  obtain r where c: "c = ?g @ CHR ''_'' # r"
    using before_first_split [OF assms(1)] by blast
  have "\<forall>x \<in> set ?g. x \<noteq> CHR ''.''"
    using assms by (auto simp: scheme_label_def)
  then have "before_first CHR ''.'' (?g @ CHR ''_'' # r)
      = ?g @ before_first CHR ''.'' (CHR ''_'' # r)"
    by (intro takeWhile_append2) blast
  then have "CHR ''_'' \<in> set (before_first CHR ''.'' (?g @ CHR ''_'' # r))"
    by simp
  then show ?thesis using c by simp
qed

lemma dot_prefix_strict:
  assumes "CHR ''.'' \<in> set x" and "CHR ''_'' \<notin> set (before_first CHR ''.'' x)"
  shows "before_first CHR ''.'' x < before_first CHR ''_'' x"
proof -
  let ?p = "before_first CHR ''.'' x"
  obtain r where x: "x = ?p @ CHR ''.'' # r"
    using before_first_split [OF assms(1)] by blast
  have "\<forall>y \<in> set ?p. y \<noteq> CHR ''_''"
    using assms(2) by auto
  then have "before_first CHR ''_'' (?p @ CHR ''.'' # r)
      = ?p @ before_first CHR ''_'' (CHR ''.'' # r)"
    by (intro takeWhile_append2) blast
  then have "before_first CHR ''_'' x = ?p @ CHR ''.'' # before_first CHR ''_'' r"
    using x by simp
  then show ?thesis
    by (simp add: list_less_def lexord_append_rightI)
qed

lemma scheme_parents_genotype: "scheme_parents (before_first CHR ''_'' c) = []"
  by (simp add: scheme_parents_def before_first_free)

lemma scheme_parents_major:
  assumes "CHR ''_'' \<in> set c" and "scheme_label c"
  shows "scheme_parents (before_first CHR ''.'' c) = [before_first CHR ''_'' c]"
proof -
  have "CHR ''_'' \<in> set (before_first CHR ''.'' c)"
    using assms by (rule scheme_major_has_underscore)
  then show ?thesis
    by (simp add: scheme_parents_def before_first_free before_first_nested)
qed

lemma scheme_parents_minor:
  assumes "CHR ''_'' \<in> set c" and "CHR ''.'' \<in> set c"
  shows "scheme_parents c = [before_first CHR ''.'' c]"
  using assms by (simp add: scheme_parents_def)

lemma loop_body_scheme:
  assumes "loop_body c d = Inr d'" and "scheme_label c"
    and "\<forall>x nd. map_of d x = Some nd \<longrightarrow> nd = \<lparr>aliases = [], parents = scheme_parents x\<rparr>"
  shows "\<forall>x nd. map_of d' x = Some nd \<longrightarrow> nd = \<lparr>aliases = [], parents = scheme_parents x\<rparr>"
proof (intro allI impI)
  fix x nd
  assume x: "map_of d' x = Some nd"
  from loop_body_entry [OF assms(1) x]
  show "nd = \<lparr>aliases = [], parents = scheme_parents x\<rparr>"
    using assms(2,3) scheme_parents_genotype [of c] scheme_parents_major [of c]
      scheme_parents_minor [of c]
    by auto
qed

lemma for_clades_scheme:
  assumes "for_clades cs d = Inr d'" and "\<forall>s \<in> set cs. scheme_label s"
    and "\<forall>x nd. map_of d x = Some nd \<longrightarrow> nd = \<lparr>aliases = [], parents = scheme_parents x\<rparr>"
  shows "\<forall>x nd. map_of d' x = Some nd \<longrightarrow> nd = \<lparr>aliases = [], parents = scheme_parents x\<rparr>"
  using assms(1)
proof (rule for_clades_invariant)
  show "\<forall>x nd. map_of d x = Some nd \<longrightarrow> nd = \<lparr>aliases = [], parents = scheme_parents x\<rparr>"
    by (rule assms(3))
next
  fix c a b
  assume "c \<in> set cs" 
    and "\<forall>x nd. map_of a x = Some nd \<longrightarrow> nd = \<lparr>aliases = [], parents = scheme_parents x\<rparr>"
    and "loop_body c a = Inr b"
  then show "\<forall>x nd. map_of b x = Some nd \<longrightarrow> nd = \<lparr>aliases = [], parents = scheme_parents x\<rparr>"
    using loop_body_scheme [of c a b] assms(2) by blast
qed

lemma load_scheme:
  assumes "load_lineage_files cs = Inr h" and "\<forall>s \<in> set cs. scheme_label s"
    and "map_of h x = Some nd"
  shows "nd = \<lparr>aliases = [], parents = scheme_parents x\<rparr>"
proof -
  have run: "for_clades cs
      [(''unassigned'', \<lparr>aliases = [], parents = []\<rparr>), (''None'', \<lparr>aliases = [], parents = []\<rparr>)]
      = Inr h"
    using assms(1) by (simp add: load_eq)
  have "\<forall>x nd. map_of h x = Some nd \<longrightarrow> nd = \<lparr>aliases = [], parents = scheme_parents x\<rparr>"
    using run assms(2)
    by (rule for_clades_scheme) (auto simp: scheme_parents_def split: if_splits)
  then show ?thesis using assms(3) by blast
qed

lemma scheme_parents_key:
  assumes "p \<in> set (scheme_parents x)"
  shows "label_key p < label_key x"
proof -
  have us: "CHR ''_'' \<in> set x"
    using assms by (auto simp: scheme_parents_def split: if_splits)
  then have ne: "x \<noteq> []" by auto
  show ?thesis
  proof (cases "CHR ''.'' \<in> set x")
    case False
    then have p: "p = before_first CHR ''_'' x"
      using assms us by (simp add: scheme_parents_def)
    have "label_key p = (p, [], [])"
      by (simp add: label_key_def p before_first_free)
    moreover have "label_key x = (p, x, [])"
      using us False before_first_all [of "CHR ''.''" x] by (simp add: label_key_def p)
    moreover have "[] < x" using ne by (cases x) simp_all
    ultimately show ?thesis by simp
  next
    case True
    then have p: "p = before_first CHR ''.'' x"
      using assms us by (simp add: scheme_parents_def)
    have kx: "label_key x = (before_first CHR ''_'' x, p, x)"
      using us True by (simp add: label_key_def p)
    have lt: "[] < x" using ne by (cases x) simp_all
    have nodot: "before_first CHR ''.'' p = p"
      by (simp add: p before_first_free)
    show ?thesis
    proof (cases "CHR ''_'' \<in> set p")
      case True
      then have "before_first CHR ''_'' p = before_first CHR ''_'' x"
        unfolding p by (rule before_first_nested)
      then have "label_key p = (before_first CHR ''_'' x, p, [])"
        using True nodot by (simp add: label_key_def before_first_free p)
      then show ?thesis using kx lt by simp
    next
      case False
      then have "label_key p = (p, [], [])"
        using before_first_all [of "CHR ''_''" p] by (simp add: label_key_def)
      moreover have "p < before_first CHR ''_'' x"
        unfolding p using \<open>CHR ''.'' \<in> set x\<close> False [unfolded p] by (rule dot_prefix_strict)
      ultimately show ?thesis using kx by simp
    qed
  qed
qed

lemma loop_body_keys:
  assumes "loop_body c d = Inr d'"
  shows "set (keys d') = set (keys d) \<union> label_names c"
  using assms
  by (auto simp: loop_body_eq Let_def keys_insert_if_absent label_names_def split: if_splits)

lemma for_clades_keys:
  assumes "for_clades cs d = Inr d'"
  shows "set (keys d') = set (keys d) \<union> (\<Union>c \<in> set cs. label_names c)"
  using assms
proof (induction cs arbitrary: d)
  case Nil
  then show ?case by simp
next
  case (Cons c cs)
  obtain d1 where d1: "loop_body c d = Inr d1"
    using loop_body_total by blast
  then have "for_clades cs d1 = Inr d'"
    using Cons.prems by simp
  then have "set (keys d') = set (keys d1) \<union> (\<Union>c \<in> set cs. label_names c)"
    by (rule Cons.IH)
  then show ?case using loop_body_keys [OF d1] by auto
qed

lemma load_keys:
  assumes "load_lineage_files cs = Inr h"
  shows "set (keys h) = {''unassigned'', ''None''} \<union> (\<Union>c \<in> set cs. label_names c)"
  using for_clades_keys [of cs _ h] assms
  by (simp add: load_eq keys_def)

text \<open>For input labels that follow the scheme (no dot before the first underscore),
  sorting the names by the key \<open>parse_label\<close> places every name listed among the parents
  of a node before that node.\<close>

lemma scheme_parents_sorted_first:
  assumes "\<forall>s \<in> set cs. scheme_label s"
  shows "\<exists>h names. load_lineage_files cs = Inr h
           \<and> sorted_by parse_label (keys h) = Inr names
           \<and> (\<forall>x nd p. map_of h x = Some nd \<longrightarrow> p \<in> set (parents nd)
                  \<longrightarrow> precedes names p x)"
proof -
  obtain h where h: "load_lineage_files cs = Inr h"
    using load_total by blast
  let ?names = "sort_key label_key (keys h)"
  have "precedes ?names p x" if x: "map_of h x = Some nd" and p: "p \<in> set (parents nd)"
    for x nd p
  proof -
    have "nd = \<lparr>aliases = [], parents = scheme_parents x\<rparr>"
      using h assms x by (rule load_scheme)
    then have "label_key p < label_key x"
      using p by (simp add: scheme_parents_key)
    moreover have "p \<in> set (keys h)"
      using h x p by (rule load_parents_closed)
    moreover have "x \<in> set (keys h)"
      using x by (rule map_of_keys)
    ultimately show ?thesis by (simp add: precedes_sort_key)
  qed
  then show ?thesis using h sorted_by_parse_label [of "keys h"] by blast
qed

text \<open>
  C1. Sorting the node names of a built hierarchy by the key \<open>parse_label\<close> is to place
  every parent before its child, for all input strings; the writer's own comment says
  that iterating the sorted names maintains the topological order. The code does not do
  so for the input \<open>["A.b_c"]\<close>: the builder gives the major lineage \<open>A\<close> the parent
  \<open>A.b\<close>, the key of \<open>A\<close> is below the key of \<open>A.b\<close>, and the writer emits the node \<open>A\<close>
  before its parent \<open>A.b\<close>.
\<close>

theorem child_written_before_parent:
  "load_lineage_files [''A.b_c'']
     = Inr [(''unassigned'', \<lparr>aliases = [], parents = []\<rparr>),
            (''None'', \<lparr>aliases = [], parents = []\<rparr>),
            (''A.b'', \<lparr>aliases = [], parents = []\<rparr>),
            (''A'', \<lparr>aliases = [], parents = [''A.b'']\<rparr>),
            (''A.b_c'', \<lparr>aliases = [], parents = [''A'']\<rparr>)]
   \<and> sorted_by parse_label
         (keys [(''unassigned'', \<lparr>aliases = [], parents = []\<rparr>),
                (''None'', \<lparr>aliases = [], parents = []\<rparr>),
                (''A.b'', \<lparr>aliases = [], parents = []\<rparr>),
                (''A'', \<lparr>aliases = [], parents = [''A.b'']\<rparr>),
                (''A.b_c'', \<lparr>aliases = [], parents = [''A'']\<rparr>)])
       = Inr [''A'', ''A.b'', ''A.b_c'', ''None'', ''unassigned'']
   \<and> \<not> precedes [''A'', ''A.b'', ''A.b_c'', ''None'', ''unassigned''] ''A.b'' ''A''
   \<and> generate_hierarchy_file
         [(''unassigned'', \<lparr>aliases = [], parents = []\<rparr>),
          (''None'', \<lparr>aliases = [], parents = []\<rparr>),
          (''A.b'', \<lparr>aliases = [], parents = []\<rparr>),
          (''A'', \<lparr>aliases = [], parents = [''A.b'']\<rparr>),
          (''A.b_c'', \<lparr>aliases = [], parents = [''A'']\<rparr>)]
       = Inr [Header ''A'', Aliases [], ParentsHeader, ParentItem ''A.b'',
              Header ''A.b'', Aliases [], ParentsEmpty,
              Header ''A.b_c'', Aliases [], ParentsHeader, ParentItem ''A'',
              Header ''None'', Aliases [], ParentsEmpty,
              Header ''unassigned'', Aliases [], ParentsEmpty]"
  by (simp add: load_eq loop_body_eq insert_if_absent_eq keys_def Let_def
        sorted_by_parse_label label_key_def generate_hierarchy_file_def
        write_node_def getitem_def)

subsection \<open>Shape of the hierarchy for labels that follow the scheme\<close>



lemma keys_map_of: "x \<in> set (keys h) \<Longrightarrow> \<exists>nd. map_of h x = Some nd"
  using map_of_eq_None_iff [of h x] by (auto simp: keys_def)

lemma load_scheme_entry:
  assumes "load_lineage_files cs = Inr h" and "\<forall>s \<in> set cs. scheme_label s"
    and "x \<in> set (keys h)"
  shows "map_of h x = Some \<lparr>aliases = [], parents = scheme_parents x\<rparr>"
proof -
  obtain nd where nd: "map_of h x = Some nd"
    using assms(3) keys_map_of by blast
  then show ?thesis using load_scheme [OF assms(1,2) nd] by simp
qed


lemma load_label_names:
  assumes "load_lineage_files cs = Inr h" and "s \<in> set cs"
  shows "label_names s \<subseteq> set (keys h)"
  using load_keys [OF assms(1)] assms(2) by blast




text \<open>
  C3 (as amended). For any two input sequences with the same set of strings, in any order
  and with any duplication, the builder returns hierarchies with the same set of node
  names; and when the labels follow the scheme (no dot before the first underscore), the
  two hierarchies are identical: the same node, with the same parents, under every name.
\<close>

theorem builder_order_independent:
  assumes "set cs = set cs'"
  shows "\<exists>h h'. load_lineage_files cs = Inr h \<and> load_lineage_files cs' = Inr h'
     \<and> set (keys h) = set (keys h')
     \<and> ((\<forall>s \<in> set cs. scheme_label s) \<longrightarrow> map_of h = map_of h')"
proof -
  obtain h where h: "load_lineage_files cs = Inr h"
    using load_total by blast
  obtain h' where h': "load_lineage_files cs' = Inr h'"
    using load_total by blast
  have same: "set (keys h) = set (keys h')"
    using load_keys [OF h] load_keys [OF h'] assms by simp
  have "map_of h = map_of h'" if sch: "\<forall>s \<in> set cs. scheme_label s"
  proof
    fix x
    have sch': "\<forall>s \<in> set cs'. scheme_label s" using sch assms by simp
    show "map_of h x = map_of h' x"
    proof (cases "x \<in> set (keys h)")
      case True
      then show ?thesis
        using load_scheme_entry [OF h sch, of x] load_scheme_entry [OF h' sch', of x] same
        by simp
    next
      case False
      then have "map_of h x = None" and "map_of h' x = None"
        using same by (simp_all add: keys_def map_of_eq_None_iff)
      then show ?thesis by simp
    qed
  qed
  then show ?thesis using h h' same by blast
qed

theorem builder_order_independent_witness:
  "set [''A_1.2'', ''B_1'', ''A_1.2''] = set [''B_1'', ''A_1.2'']
   \<and> scheme_label ''A_1.2'' \<and> scheme_label ''B_1''
   \<and> (\<exists>h h'. load_lineage_files [''A_1.2'', ''B_1'', ''A_1.2''] = Inr h
          \<and> load_lineage_files [''B_1'', ''A_1.2''] = Inr h'
          \<and> set (keys h) = set (keys h') \<and> map_of h = map_of h')"
proof -
  have eq: "set [''A_1.2'', ''B_1'', ''A_1.2''] = set [''B_1'', ''A_1.2'']"
    by auto
  have sch: "scheme_label ''A_1.2''" "scheme_label ''B_1''"
    by (simp_all add: scheme_label_def)
  then have "\<forall>s \<in> set [''A_1.2'', ''B_1'', ''A_1.2'']. scheme_label s"
    by simp
  then show ?thesis
    using builder_order_independent [OF eq] eq sch by blast
qed

text \<open>The claim as written ranges over all input strings. The name \<open>A\<close> is the genotype of
  the label \<open>A\<close> and the major lineage of \<open>A.b_c\<close>; the first write wins, so its parents
  depend on which label comes first.\<close>

theorem builder_order_independent_counterexample:
  "set [''A'', ''A.b_c''] = set [''A.b_c'', ''A'']
   \<and> load_lineage_files [''A'', ''A.b_c'']
       = Inr [(''unassigned'', \<lparr>aliases = [], parents = []\<rparr>),
              (''None'', \<lparr>aliases = [], parents = []\<rparr>),
              (''A'', \<lparr>aliases = [], parents = []\<rparr>),
              (''A.b'', \<lparr>aliases = [], parents = []\<rparr>),
              (''A.b_c'', \<lparr>aliases = [], parents = [''A'']\<rparr>)]
   \<and> load_lineage_files [''A.b_c'', ''A'']
       = Inr [(''unassigned'', \<lparr>aliases = [], parents = []\<rparr>),
              (''None'', \<lparr>aliases = [], parents = []\<rparr>),
              (''A.b'', \<lparr>aliases = [], parents = []\<rparr>),
              (''A'', \<lparr>aliases = [], parents = [''A.b'']\<rparr>),
              (''A.b_c'', \<lparr>aliases = [], parents = [''A'']\<rparr>)]
   \<and> map_of [(''unassigned'', \<lparr>aliases = [], parents = []\<rparr>),
              (''None'', \<lparr>aliases = [], parents = []\<rparr>),
              (''A'', \<lparr>aliases = [], parents = []\<rparr>),
              (''A.b'', \<lparr>aliases = [], parents = []\<rparr>),
              (''A.b_c'', \<lparr>aliases = [], parents = [''A'']\<rparr>)] ''A''
       \<noteq> map_of [(''unassigned'', \<lparr>aliases = [], parents = []\<rparr>),
              (''None'', \<lparr>aliases = [], parents = []\<rparr>),
              (''A.b'', \<lparr>aliases = [], parents = []\<rparr>),
              (''A'', \<lparr>aliases = [], parents = [''A.b'']\<rparr>),
              (''A.b_c'', \<lparr>aliases = [], parents = [''A'']\<rparr>)] ''A''"
proof -
  have "set [''A'', ''A.b_c''] = set [''A.b_c'', ''A'']" by auto
  then show ?thesis
    by (simp add: load_eq loop_body_eq insert_if_absent_eq keys_def Let_def)
qed

subsection \<open>One node for each name\<close>

lemma count_list_distinct:
  "distinct xs \<Longrightarrow> x \<in> set xs \<Longrightarrow> count_list xs x = 1"
  by (induction xs) auto

lemma load_distinct:
  assumes "load_lineage_files cs = Inr h"
  shows "distinct (keys h)"
  using for_clades_distinct [of cs _ h] assms by (simp add: load_eq keys_def)

text \<open>
  C8. First write wins. A guarded insertion of a name that is already a key leaves the
  dictionary unchanged; an entry present before an iteration, or before the whole loop, is
  the same afterwards, whatever parents a later label would give that name. The builder
  returns a hierarchy whose keys are distinct and are exactly the two sentinels and the
  names the input rows produce, and every name a row produces (its genotype, its major
  lineage when the label has an underscore, its non-empty minor lineage) occurs exactly
  once among the keys, however many rows produce it.
\<close>

theorem first_write_wins:
  "(map_of d name = Some old \<longrightarrow> insert_if_absent name v d = d)
   \<and> (\<forall>d'. map_of d name = Some old \<longrightarrow> loop_body clade d = Inr d'
          \<longrightarrow> map_of d' name = Some old)
   \<and> (\<forall>d'. map_of d name = Some old \<longrightarrow> for_clades cs d = Inr d'
          \<longrightarrow> map_of d' name = Some old)
   \<and> (\<exists>h. load_lineage_files cs = Inr h \<and> distinct (keys h)
        \<and> set (keys h) = {''unassigned'', ''None''} \<union> (\<Union>s \<in> set cs. label_names s)
        \<and> (\<forall>s \<in> set cs. \<forall>g m n. parse_label s = Inr (g, m, n) \<longrightarrow>
              count_list (keys h) g = 1
              \<and> (CHR ''_'' \<in> set s \<longrightarrow> count_list (keys h) m = 1)
              \<and> (n \<noteq> [] \<longrightarrow> count_list (keys h) n = 1)))"
proof (intro conjI allI impI)
  assume "map_of d name = Some old"
  then show "insert_if_absent name v d = d"
    by (simp add: insert_if_absent_eq map_of_keys)
next
  fix d'
  assume "map_of d name = Some old" and "loop_body clade d = Inr d'"
  then show "map_of d' name = Some old"
    by (simp add: loop_body_preserves)
next
  fix d'
  assume "map_of d name = Some old" and "for_clades cs d = Inr d'"
  then show "map_of d' name = Some old"
    by (simp add: for_clades_preserves)
next
  obtain h where h: "load_lineage_files cs = Inr h"
    using load_total by blast
  have dist: "distinct (keys h)"
    using h by (rule load_distinct)
  have ks: "set (keys h) = {''unassigned'', ''None''} \<union> (\<Union>s \<in> set cs. label_names s)"
    using h by (rule load_keys)
  have once: "count_list (keys h) g = 1
              \<and> (CHR ''_'' \<in> set s \<longrightarrow> count_list (keys h) m = 1)
              \<and> (n \<noteq> [] \<longrightarrow> count_list (keys h) n = 1)"
    if s: "s \<in> set cs" and p: "parse_label s = Inr (g, m, n)" for s g m n
  proof -
    have names: "label_names s \<subseteq> set (keys h)" using h s by (rule load_label_names)
    have g: "g = before_first CHR ''_'' s"
      and m: "m = (if CHR ''_'' \<in> set s then before_first CHR ''.'' s else [])"
      and n: "n = (if CHR ''_'' \<in> set s \<and> CHR ''.'' \<in> set s then s else [])"
      using p by (simp_all add: parse_label_key label_key_def)
    have "g \<in> set (keys h)"
      using names g by (auto simp: label_names_def split: if_splits)
    moreover have "m \<in> set (keys h)" if "CHR ''_'' \<in> set s"
      using names m that by (auto simp: label_names_def split: if_splits)
    moreover have "n \<in> set (keys h)" if "n \<noteq> []"
      using names n that by (auto simp: label_names_def split: if_splits)
    ultimately show ?thesis using dist by (simp add: count_list_distinct)
  qed
  show "\<exists>h. load_lineage_files cs = Inr h \<and> distinct (keys h)
        \<and> set (keys h) = {''unassigned'', ''None''} \<union> (\<Union>s \<in> set cs. label_names s)
        \<and> (\<forall>s \<in> set cs. \<forall>g m n. parse_label s = Inr (g, m, n) \<longrightarrow>
              count_list (keys h) g = 1
              \<and> (CHR ''_'' \<in> set s \<longrightarrow> count_list (keys h) m = 1)
              \<and> (n \<noteq> [] \<longrightarrow> count_list (keys h) n = 1))"
  proof (intro exI [of _ h] conjI ballI allI impI)
    show "load_lineage_files cs = Inr h" by (rule h)
    show "distinct (keys h)" by (rule dist)
    show "set (keys h) = {''unassigned'', ''None''} \<union> (\<Union>s \<in> set cs. label_names s)"
      by (rule ks)
  next
    fix s g m n
    assume "s \<in> set cs" and "parse_label s = Inr (g, m, n)"
    then show "count_list (keys h) g = 1" using once by blast
  next
    fix s g m n
    assume "s \<in> set cs" and "parse_label s = Inr (g, m, n)" and "CHR ''_'' \<in> set s"
    then show "count_list (keys h) m = 1" using once by blast
  next
    fix s g m n
    assume "s \<in> set cs" and "parse_label s = Inr (g, m, n)" and "n \<noteq> []"
    then show "count_list (keys h) n = 1" using once by blast
  qed
qed

theorem first_write_wins_witness:
  "map_of [(''unassigned'', \<lparr>aliases = [], parents = []\<rparr>),
           (''None'', \<lparr>aliases = [], parents = []\<rparr>),
           (''A'', \<lparr>aliases = [], parents = []\<rparr>)] ''A''
     = Some \<lparr>aliases = [], parents = []\<rparr>
   \<and> insert_if_absent ''A'' \<lparr>aliases = [], parents = [''A.b'']\<rparr>
        [(''unassigned'', \<lparr>aliases = [], parents = []\<rparr>),
         (''None'', \<lparr>aliases = [], parents = []\<rparr>),
         (''A'', \<lparr>aliases = [], parents = []\<rparr>)]
     = [(''unassigned'', \<lparr>aliases = [], parents = []\<rparr>),
        (''None'', \<lparr>aliases = [], parents = []\<rparr>),
        (''A'', \<lparr>aliases = [], parents = []\<rparr>)]
   \<and> (\<exists>d'. loop_body ''A.b_c''
               [(''unassigned'', \<lparr>aliases = [], parents = []\<rparr>),
                (''None'', \<lparr>aliases = [], parents = []\<rparr>),
                (''A'', \<lparr>aliases = [], parents = []\<rparr>)] = Inr d'
          \<and> map_of d' ''A'' = Some \<lparr>aliases = [], parents = []\<rparr>)
   \<and> (\<exists>d'. for_clades [''A.b_c'', ''A.b_c'']
               [(''unassigned'', \<lparr>aliases = [], parents = []\<rparr>),
                (''None'', \<lparr>aliases = [], parents = []\<rparr>),
                (''A'', \<lparr>aliases = [], parents = []\<rparr>)] = Inr d'
          \<and> map_of d' ''A'' = Some \<lparr>aliases = [], parents = []\<rparr>)
   \<and> ''A.b_c'' \<in> set [''A.b_c'', ''A.b_c'']
   \<and> parse_label ''A.b_c'' = Inr (''A.b'', ''A'', ''A.b_c'')
   \<and> CHR ''_'' \<in> set ''A.b_c'' \<and> ''A.b_c'' \<noteq> []
   \<and> (\<exists>h. load_lineage_files [''A.b_c'', ''A.b_c''] = Inr h \<and> distinct (keys h)
        \<and> set (keys h) = {''unassigned'', ''None'', ''A.b'', ''A'', ''A.b_c''}
        \<and> count_list (keys h) ''A.b'' = 1
        \<and> count_list (keys h) ''A'' = 1
        \<and> count_list (keys h) ''A.b_c'' = 1)"
  using first_write_wins [of "[(''unassigned'', \<lparr>aliases = [], parents = []\<rparr>),
           (''None'', \<lparr>aliases = [], parents = []\<rparr>),
           (''A'', \<lparr>aliases = [], parents = []\<rparr>)]" "''A''" "\<lparr>aliases = [], parents = []\<rparr>"
           "\<lparr>aliases = [], parents = [''A.b'']\<rparr>" "''A.b_c''" "[''A.b_c'', ''A.b_c'']"]
  by (simp add: load_eq loop_body_eq insert_if_absent_eq keys_def Let_def
        parse_label_key label_key_def label_names_def)

subsection \<open>Order of the written nodes\<close>

lemma inj_label_key: "inj label_key"
  by (rule injI) (rule label_key_inj)

lemma write_node_cong: "map_of h = map_of h' \<Longrightarrow> write_node h = write_node h'"
  by (rule ext) (simp add: write_node_def getitem_def)

text \<open>
  C10. For two dictionaries with the same keys, in any iteration order, the writer's sorted
  sequence of names is the same, and when the dictionaries also hold the same nodes the
  lines written are the same. \<open>parse_label\<close> is injective, so the keys of two different
  names are never equal: one is strictly below the other.
\<close>

theorem writer_order_deterministic:
  assumes "distinct (keys h)" and "distinct (keys h')" and "set (keys h) = set (keys h')"
  shows "sorted_by parse_label (keys h) = sorted_by parse_label (keys h')
     \<and> (map_of h = map_of h' \<longrightarrow> generate_hierarchy_file h = generate_hierarchy_file h')
     \<and> inj parse_label
     \<and> (\<forall>a b ka kb. a \<noteq> b \<longrightarrow> parse_label a = Inr ka \<longrightarrow> parse_label b = Inr kb
            \<longrightarrow> ka < kb \<or> kb < ka)"
proof (intro conjI allI impI)
  show names: "sorted_by parse_label (keys h) = sorted_by parse_label (keys h')"
    using sort_key_same_set [OF inj_label_key assms]
    by (simp add: sorted_by_parse_label)
  show "generate_hierarchy_file h = generate_hierarchy_file h'" if "map_of h = map_of h'"
    unfolding generate_hierarchy_file_def names write_node_cong [OF that] ..
  show "inj parse_label"
  proof (rule injI)
    fix a b
    assume "parse_label a = parse_label b"
    then have "label_key a = label_key b" by (simp add: parse_label_key)
    then show "a = b" by (rule label_key_inj)
  qed
next
  fix a b :: string and ka kb
  assume "a \<noteq> b" and "parse_label a = Inr ka" and "parse_label b = Inr kb"
  then have "ka \<noteq> kb"
    using label_key_inj [of a b] by (auto simp: parse_label_key)
  then show "ka < kb \<or> kb < ka" by auto
qed

theorem writer_order_deterministic_witness:
  "distinct (keys [(''B_1'', \<lparr>aliases = [], parents = [''B'']\<rparr>),
                   (''B'', \<lparr>aliases = [], parents = []\<rparr>)])
   \<and> distinct (keys [(''B'', \<lparr>aliases = [], parents = []\<rparr>),
                      (''B_1'', \<lparr>aliases = [], parents = [''B'']\<rparr>)])
   \<and> set (keys [(''B_1'', \<lparr>aliases = [], parents = [''B'']\<rparr>),
                 (''B'', \<lparr>aliases = [], parents = []\<rparr>)])
       = set (keys [(''B'', \<lparr>aliases = [], parents = []\<rparr>),
                    (''B_1'', \<lparr>aliases = [], parents = [''B'']\<rparr>)])
   \<and> sorted_by parse_label (keys [(''B_1'', \<lparr>aliases = [], parents = [''B'']\<rparr>),
                                   (''B'', \<lparr>aliases = [], parents = []\<rparr>)])
       = Inr [''B'', ''B_1'']
   \<and> sorted_by parse_label (keys [(''B'', \<lparr>aliases = [], parents = []\<rparr>),
                                   (''B_1'', \<lparr>aliases = [], parents = [''B'']\<rparr>)])
       = Inr [''B'', ''B_1'']
   \<and> map_of [(''B_1'', \<lparr>aliases = [], parents = [''B'']\<rparr>),
              (''B'', \<lparr>aliases = [], parents = []\<rparr>)]
       = map_of [(''B'', \<lparr>aliases = [], parents = []\<rparr>),
                 (''B_1'', \<lparr>aliases = [], parents = [''B'']\<rparr>)]
   \<and> generate_hierarchy_file [(''B_1'', \<lparr>aliases = [], parents = [''B'']\<rparr>),
                               (''B'', \<lparr>aliases = [], parents = []\<rparr>)]
       = generate_hierarchy_file [(''B'', \<lparr>aliases = [], parents = []\<rparr>),
                                  (''B_1'', \<lparr>aliases = [], parents = [''B'']\<rparr>)]
   \<and> ''B'' \<noteq> ''B_1''
   \<and> parse_label ''B'' = Inr (''B'', [], [])
   \<and> parse_label ''B_1'' = Inr (''B'', ''B_1'', [])
   \<and> (''B'', [], []) < (''B'', ''B_1'', [])"
proof -
  let ?h = "[(''B_1'', \<lparr>aliases = [], parents = [''B'']\<rparr>),
             (''B'', \<lparr>aliases = [], parents = []\<rparr>)]"
  let ?h' = "[(''B'', \<lparr>aliases = [], parents = []\<rparr>),
              (''B_1'', \<lparr>aliases = [], parents = [''B'']\<rparr>)]"
  have d: "distinct (keys ?h)" and d': "distinct (keys ?h')"
    by (simp_all add: keys_def)
  have s: "set (keys ?h) = set (keys ?h')"
    by (auto simp: keys_def)
  have m: "map_of ?h = map_of ?h'"
    by (rule ext) simp
  have k: "sorted_by parse_label (keys ?h') = Inr [''B'', ''B_1'']"
    by (simp add: sorted_by_parse_label label_key_def keys_def)
  have p: "parse_label ''B'' = Inr (''B'', [], [])"
    "parse_label ''B_1'' = Inr (''B'', ''B_1'', [])"
    by (simp_all add: parse_label_key label_key_def)
  have lt: "(''B'', [], []) < (''B'', ''B_1'', [])"
    by simp
  show ?thesis
    using writer_order_deterministic [OF d d' s] d d' s m k p lt by simp
qed

end
